theory Spec2Isabelle
  imports Main "HOL-Library.Product_Lexorder" "HOL-Library.Multiset"
begin

section \<open>Data model of \<^verbatim>\<open>mbf_genomes/gene.py\<close>\<close>

text \<open>
  An exon is a Python tuple \<^verbatim>\<open>(start, stop)\<close> of unbounded integers. Lists of such tuples
  are sorted by Python's tuple comparison, which is the lexicographic order that
  \<open>Product_Lexorder\<close> puts on pairs.
\<close>

type_synonym interval = "int \<times> int"

text \<open>The exceptions the code can raise, each with its message.\<close>

datatype error = ValueError string | IndexError string | TypeError string

definition inverted_exon :: error where
  "inverted_exon = ValueError ''inverted exon''"

definition need_merging :: error where
  "need_merging = ValueError
     (''_intron_intervals_from_exons saw exons '' @
      ''that need merging by setting merge=True,'' @
      '' but merge was False - should not happen?'')"

definition list_index_out_of_range :: error where
  "list_index_out_of_range = IndexError ''list index out of range''"

definition element_with_a_sequence :: error where
  "element_with_a_sequence = ValueError ''setting an array element with a sequence.''"

definition not_iterable :: error where
  "not_iterable = TypeError (CHR 0x27 # ''NoneType' object is not iterable'')"

text \<open>
  The two \<^verbatim>\<open>attr.s\<close> classes. A transcript refers back to its gene, and a gene holds its
  transcripts; \<^verbatim>\<open>transcripts\<close> defaults to \<^verbatim>\<open>None\<close>.
\<close>

datatype Gene = Gene
    (gene_stable_id: string) (name: string) (chr: string) (start: int) (stop: int)
    (strand: int) (biotype: string) (transcripts: "Transcript list option")
and Transcript = Transcript
    (transcript_stable_id: string) (gene_stable_id: string) (name: string)
    (chr: string) (start: int) (stop: int) (strand: int) (biotype: string)
    (exons: "interval list") (exon_stable_ids: "string list") (gene: Gene)

text \<open>
  The \<^verbatim>\<open>pandas.DataFrame\<close> with the columns \<^verbatim>\<open>chr\<close>, \<^verbatim>\<open>start\<close>, \<^verbatim>\<open>stop\<close> that is handed to
  \<^verbatim>\<open>merge_intervals\<close>. That function lives in \<^verbatim>\<open>mbf_genomes/intervals.py\<close>, which is not
  among the sources; every definition that calls it takes it as the parameter
  \<open>merge_intervals\<close>.
\<close>

record DataFrame =
  df_chr :: "string list"
  df_start :: "int list"
  df_stop :: "int list"

type_synonym merge_intervals_fn = "DataFrame \<Rightarrow> error + DataFrame"


section \<open>\<^verbatim>\<open>merge_exons\<close>\<close>

text \<open>
  \<^verbatim>\<open>np.array\<close> on a list of Python integers gives an array of \<^verbatim>\<open>int64\<close> cells exactly when
  every value lies in the range of \<^verbatim>\<open>int64\<close> (an empty list gives an array without cells).
  A list holding a value outside that range becomes a \<^verbatim>\<open>uint64\<close>, \<^verbatim>\<open>float64\<close> or \<^verbatim>\<open>object\<close>
  array: its cells may be rounded and its comparisons with \<^verbatim>\<open>int64\<close> cells go through
  \<^verbatim>\<open>float64\<close>. The model follows the code for \<^verbatim>\<open>int64\<close> arrays only: \<open>np_array\<close> is \<open>None\<close> for
  any other list, and so is the result of every function that builds such an array.
\<close>

definition int64 :: "int \<Rightarrow> bool" where
  "int64 n \<longleftrightarrow> - (2 ^ 63) \<le> n \<and> n < 2 ^ 63"

definition np_array :: "int list \<Rightarrow> int list option" where
  "np_array xs = (if list_all int64 xs then Some xs else None)"

text \<open>
  The local variables of \<^verbatim>\<open>merge_exons\<close>: the two numpy arrays \<^verbatim>\<open>starts\<close> and \<^verbatim>\<open>stops\<close>,
  the boolean mask \<^verbatim>\<open>keep\<close>, and the sweep state. The cells of \<^verbatim>\<open>starts\<close> and \<^verbatim>\<open>stops\<close> are
  \<^verbatim>\<open>int64\<close> cells, held as the integers they denote: the loop only compares cells and copies
  them, so every value it stores is one that an \<^verbatim>\<open>int64\<close> cell held before, and comparing
  two \<^verbatim>\<open>int64\<close> cells, or a cell with the Python integer 0, is comparing the integers.
\<close>

record merge_vars =
  starts :: "int list"
  stops :: "int list"
  keep :: "bool list"
  last_stop :: int
  last_row :: "nat option"
  ii :: nat

text \<open>
  One pass through the body of the \<^verbatim>\<open>while\<close> loop (lines 27 to 37). When \<^verbatim>\<open>last_row\<close> is
  still \<^verbatim>\<open>None\<close> in the overlap branch, numpy reads \<^verbatim>\<open>starts[None]\<close> as the array with a
  new leading axis, of shape \<^verbatim>\<open>(1, lendf)\<close>: storing it into the single cell \<^verbatim>\<open>starts[ii]\<close>
  stores its only element when \<^verbatim>\<open>lendf\<close> is 1 and raises \<^verbatim>\<open>ValueError\<close> otherwise.
\<close>

definition merge_body :: "nat \<Rightarrow> merge_vars \<Rightarrow> error + merge_vars" where
  "merge_body lendf v =
    (case
       (if starts v ! ii v < last_stop v then
          (case last_row v of
             None \<Rightarrow>
               (if lendf = 1 then
                  Inr (v\<lparr>starts := (starts v)[ii v := starts v ! 0],
                         stops := (stops v)[ii v := max (stops v ! ii v) (last_stop v)]\<rparr>)
                else Inl element_with_a_sequence)
           | Some r \<Rightarrow>
               Inr (v\<lparr>starts := (starts v)[ii v := starts v ! r],
                      stops := (stops v)[ii v := max (stops v ! ii v) (last_stop v)]\<rparr>))
        else
          (case last_row v of
             None \<Rightarrow> Inr v
           | Some r \<Rightarrow> Inr (v\<lparr>keep := (keep v)[r := True]\<rparr>)))
     of
       Inl e \<Rightarrow> Inl e
     | Inr v1 \<Rightarrow>
         (let v2 = (if stops v1 ! ii v1 > last_stop v1
                    then v1\<lparr>last_stop := stops v1 ! ii v1\<rparr> else v1)
          in Inr (v2\<lparr>last_row := Some (ii v2), ii := ii v2 + 1\<rparr>)))"

lemma merge_body_ii: "merge_body lendf v = Inr v' \<Longrightarrow> ii v' = ii v + 1"
  by (auto simp: merge_body_def Let_def split: if_splits option.splits)

function merge_while :: "nat \<Rightarrow> merge_vars \<Rightarrow> error + merge_vars" where
  "merge_while lendf v =
    (if ii v < lendf then
       (case merge_body lendf v of
          Inl e \<Rightarrow> Inl e
        | Inr v' \<Rightarrow> merge_while lendf v')
     else Inr v)"
  by pat_completeness auto
termination
  by (relation "measure (\<lambda>(lendf, v). lendf - ii v)") (auto dest: merge_body_ii)

declare merge_while.simps [simp del]

text \<open>Boolean-mask indexing \<^verbatim>\<open>a[keep]\<close>: the cells of \<open>a\<close> whose mask entry is true.\<close>

definition mask_select :: "'a list \<Rightarrow> bool list \<Rightarrow> 'a list" where
  "mask_select a flags = map fst (filter snd (zip a flags))"

text \<open>
  \<^verbatim>\<open>merge_exons\<close> sorts the list it is given in place (a sort of Python tuples of Python
  integers, exact for every value). The model returns the caller's list as the call leaves
  it together with what the call returns or raises, \<open>None\<close> standing for arrays that are not
  \<^verbatim>\<open>int64\<close>. The source's
  variable \<^verbatim>\<open>exons\<close> is written \<open>exs\<close> throughout, \<open>exons\<close> being the field of a transcript.
\<close>

definition merge_exons ::
    "interval list \<Rightarrow> interval list \<times> (error + int list \<times> int list) option" where
  "merge_exons exs =
    (let exs = sort exs in
     (exs,
      case (np_array (map fst exs), np_array (map snd exs)) of
        (Some start_cells, Some stop_cells) \<Rightarrow>
          (let lendf = length start_cells;
               v0 = \<lparr>starts = start_cells, stops = stop_cells,
                     keep = replicate lendf False, last_stop = 0, last_row = None, ii = 0\<rparr>
           in case merge_while lendf v0 of
                Inl e \<Rightarrow> Some (Inl e)
              | Inr v \<Rightarrow>
                  (let keep = (case last_row v of None \<Rightarrow> keep v
                               | Some r \<Rightarrow> (keep v)[r := True])
                   in Some (Inr (mask_select (starts v) keep, mask_select (stops v) keep))))
      | _ \<Rightarrow> None))"

definition merge_exons_result :: "interval list \<Rightarrow> (error + int list \<times> int list) option" where
  "merge_exons_result exs = snd (merge_exons exs)"


section \<open>\<^verbatim>\<open>_intron_intervals_from_exons\<close>\<close>

text \<open>
  The \<^verbatim>\<open>for\<close> loop of lines 59 to 76, with \<^verbatim>\<open>intron_start\<close> and \<^verbatim>\<open>res\<close> as its state
  (\<^verbatim>\<open>exon_no\<close> is counted but never read).
\<close>

fun intron_loop :: "int \<Rightarrow> interval list \<Rightarrow> interval list \<Rightarrow> error + int \<times> interval list" where
  "intron_loop intron_start res [] = Inr (intron_start, res)"
| "intron_loop intron_start res ((exon_start, exon_stop) # exs) =
    (if exon_stop < exon_start then Inl inverted_exon
     else if intron_start \<noteq> exon_start then
       (if intron_start > exon_start then Inl need_merging
        else intron_loop exon_stop (res @ [(intron_start, exon_start)]) exs)
     else intron_loop exon_stop res exs)"

text \<open>
  With \<^verbatim>\<open>merge\<close> set, \<^verbatim>\<open>zip_exons = list(zip(*exons))\<close> is the empty list for an empty exon
  list, and \<^verbatim>\<open>zip_exons[0]\<close> raises \<^verbatim>\<open>IndexError\<close> before \<^verbatim>\<open>merge_intervals\<close> is called.
\<close>

definition intron_intervals_from_exons ::
    "merge_intervals_fn \<Rightarrow> interval list \<Rightarrow> int \<Rightarrow> int \<Rightarrow> bool \<Rightarrow> error + interval list" where
  "intron_intervals_from_exons merge_intervals exs gene_start gene_stop merge =
    (case
       (if merge then
          (if exs = [] then Inl list_index_out_of_range
           else
             (case merge_intervals
                     \<lparr>df_chr = replicate (length exs) ''X'',
                      df_start = map fst exs, df_stop = map snd exs\<rparr> of
                Inl e \<Rightarrow> Inl e
              | Inr temp_df \<Rightarrow> Inr (zip (df_start temp_df) (df_stop temp_df))))
        else Inr exs)
     of
       Inl e \<Rightarrow> Inl e
     | Inr exs \<Rightarrow>
         (case intron_loop gene_start [] exs of
            Inl e \<Rightarrow> Inl e
          | Inr (intron_start, res) \<Rightarrow>
              Inr (if intron_start < gene_stop
                   then res @ [(intron_start, gene_stop)] else res)))"


section \<open>Properties of \<^verbatim>\<open>Gene\<close> and \<^verbatim>\<open>Transcript\<close>\<close>

definition tss :: "Gene \<Rightarrow> int" where
  "tss self = (if Gene.strand self = 1 then Gene.start self else Gene.stop self)"

definition tes :: "Gene \<Rightarrow> int" where
  "tes self = (if Gene.strand self \<noteq> 1 then Gene.start self else Gene.stop self)"

text \<open>\<^verbatim>\<open>Gene._exons\<close>: a fresh list, extended by the exons of every transcript.\<close>

definition Gene_exons :: "Gene \<Rightarrow> error + interval list" where
  "Gene_exons self =
    (case Gene.transcripts self of
       None \<Rightarrow> Inl not_iterable
     | Some trs \<Rightarrow> Inr (concat (map Transcript.exons trs)))"

definition exons_protein_coding :: "Gene \<Rightarrow> error + interval list" where
  "exons_protein_coding self =
    (case Gene.transcripts self of
       None \<Rightarrow> Inl not_iterable
     | Some trs \<Rightarrow>
         Inr (concat (map Transcript.exons
                [tr \<leftarrow> trs. Transcript.biotype tr = ''protein_coding''])))"

text \<open>
  \<^verbatim>\<open>Gene._reformat_exons\<close> sorts its argument in place as well, and returns the two arrays
  that \<^verbatim>\<open>np.array\<close> builds.
\<close>

definition reformat_exons :: "interval list \<Rightarrow> interval list \<times> (int list \<times> int list) option" where
  "reformat_exons exs =
    (let exs = sort exs in
     (exs,
      case (np_array (map fst exs), np_array (map snd exs)) of
        (Some start_cells, Some stop_cells) \<Rightarrow> Some (start_cells, stop_cells)
      | _ \<Rightarrow> None))"

definition exons_merged :: "Gene \<Rightarrow> (error + int list \<times> int list) option" where
  "exons_merged self =
    (case Gene_exons self of Inl e \<Rightarrow> Some (Inl e) | Inr exs \<Rightarrow> snd (merge_exons exs))"

definition exons_overlapping :: "Gene \<Rightarrow> (error + int list \<times> int list) option" where
  "exons_overlapping self =
    (case Gene_exons self of
       Inl e \<Rightarrow> Some (Inl e)
     | Inr exs \<Rightarrow> map_option Inr (snd (reformat_exons exs)))"

definition exons_protein_coding_merged :: "Gene \<Rightarrow> (error + int list \<times> int list) option" where
  "exons_protein_coding_merged self =
    (case exons_protein_coding self of
       Inl e \<Rightarrow> Some (Inl e)
     | Inr exs \<Rightarrow> snd (merge_exons exs))"

definition exons_protein_coding_overlapping ::
    "Gene \<Rightarrow> (error + int list \<times> int list) option" where
  "exons_protein_coding_overlapping self =
    (case exons_protein_coding self of
       Inl e \<Rightarrow> Some (Inl e)
     | Inr exs \<Rightarrow> map_option Inr (snd (reformat_exons exs)))"

definition Gene_introns :: "merge_intervals_fn \<Rightarrow> Gene \<Rightarrow> error + interval list" where
  "Gene_introns merge_intervals self =
    (let gene_start = Gene.start self; gene_stop = Gene.stop self in
     case Gene.transcripts self of
       None \<Rightarrow> Inl not_iterable
     | Some trs \<Rightarrow>
         (let exs = sort (concat (map Transcript.exons trs)) in
          case intron_intervals_from_exons merge_intervals exs gene_start gene_stop True of
            Inl e \<Rightarrow> Inl e
          | Inr transcript_introns \<Rightarrow>
              (case merge_intervals
                      \<lparr>df_chr = replicate (length transcript_introns) (Gene.chr self),
                       df_start = map fst transcript_introns,
                       df_stop = map snd transcript_introns\<rparr> of
                 Inl e \<Rightarrow> Inl e
               | Inr introns \<Rightarrow> Inr (zip (df_start introns) (df_stop introns)))))"

definition exons_tuples :: "Transcript \<Rightarrow> interval list" where
  "exons_tuples self = map (\<lambda>(start, stop). (start, stop)) (Transcript.exons self)"

definition Transcript_introns :: "merge_intervals_fn \<Rightarrow> Transcript \<Rightarrow> error + interval list" where
  "Transcript_introns merge_intervals self =
    (let gene_start = Gene.start (Transcript.gene self);
         gene_stop = Gene.stop (Transcript.gene self);
         exs = sort (exons_tuples self)
     in intron_intervals_from_exons merge_intervals exs gene_start gene_stop False)"


section \<open>Notions used to state the properties\<close>

text \<open>
  The value of \<^verbatim>\<open>intron_start\<close> when the loop of \<^verbatim>\<open>_intron_intervals_from_exons\<close> comes to
  exon \<open>j\<close>: the region start for the first exon, the stop of the exon before it otherwise
  (lines 44 and 76).
\<close>

definition cursor_at :: "int \<Rightarrow> interval list \<Rightarrow> nat \<Rightarrow> int" where
  "cursor_at gene_start exs j = (if j = 0 then gene_start else snd (exs ! (j - 1)))"

text \<open>
  The loop comes to exon \<open>j\<close> when no exon before it raised: none was inverted and none
  began below the cursor.
\<close>

definition reaches_exon :: "int \<Rightarrow> interval list \<Rightarrow> nat \<Rightarrow> bool" where
  "reaches_exon gene_start exs j \<longleftrightarrow>
     j < length exs \<and>
     (\<forall>i<j. fst (exs ! i) \<le> snd (exs ! i) \<and> cursor_at gene_start exs i \<le> fst (exs ! i))"

text \<open>
  The gaps as the specification words them: the leading gap when the region starts below
  the first exon, one gap for each consecutive pair of exons with room between them, the
  trailing gap when the last exon stops below the region stop. A region without exons is
  one gap. This definition follows the specification, not the code.
\<close>

fun gaps_between :: "interval list \<Rightarrow> interval list" where
  "gaps_between (prev # next # rest) =
     (if snd prev < fst next then [(snd prev, fst next)] else []) @ gaps_between (next # rest)"
| "gaps_between _ = []"

definition complementary_gaps :: "interval list \<Rightarrow> int \<Rightarrow> int \<Rightarrow> interval list" where
  "complementary_gaps exs region_start region_stop =
     (if exs = [] then (if region_start < region_stop then [(region_start, region_stop)] else [])
      else
        (if region_start < fst (hd exs) then [(region_start, fst (hd exs))] else []) @
        gaps_between exs @
        (if snd (last exs) < region_stop then [(snd (last exs), region_stop)] else []))"

text \<open>The set of coordinates that a list of half-open intervals covers.\<close>

definition covered :: "interval list \<Rightarrow> int set" where
  "covered ivs = (\<Union>(s, e)\<in>set ivs. {s..<e})"

text \<open>
  The sweep of \<^verbatim>\<open>merge_exons\<close> as a recursion over the sorted intervals that are still to
  come: the open run \<open>(run_start, run_stop)\<close> is the row at \<^verbatim>\<open>last_row\<close>, and the result is
  the list of rows that end up kept. The loop over the arrays is shown below to compute it.
\<close>

fun sweep :: "int \<Rightarrow> int \<Rightarrow> int \<Rightarrow> interval list \<Rightarrow> interval list" where
  "sweep run_start run_stop ls [] = [(run_start, run_stop)]"
| "sweep run_start run_stop ls ((s, e) # rest) =
    (if s < ls then sweep run_start (max e ls) (max e ls) rest
     else (run_start, run_stop) # sweep s e (max e ls) rest)"


section \<open>The loop of the intron deriver\<close>

lemma cursor_at_0: "cursor_at c exs 0 = c"
  by (simp add: cursor_at_def)

lemma cursor_at_Cons_Suc: "cursor_at c ((s, e) # xs) (Suc j) = cursor_at e xs j"
  by (cases j) (simp_all add: cursor_at_def)

lemma reaches_exon_0: "reaches_exon c (x # xs) 0"
  by (simp add: reaches_exon_def)

lemma reaches_exon_Suc:
  "reaches_exon c ((s, e) # xs) (Suc j) \<longleftrightarrow> s \<le> e \<and> c \<le> s \<and> reaches_exon e xs j"
  unfolding reaches_exon_def All_less_Suc2
  by (auto simp add: cursor_at_Cons_Suc cursor_at_0)

lemma reaches_exon_Nil: "\<not> reaches_exon c [] j"
  by (simp add: reaches_exon_def)

lemma ex_nat_split: "(\<exists>j::nat. Q j) \<longleftrightarrow> Q 0 \<or> (\<exists>j. Q (Suc j))"
proof
  assume "\<exists>j. Q j"
  then obtain j where j: "Q j" ..
  show "Q 0 \<or> (\<exists>j. Q (Suc j))"
  proof (cases j)
    case 0
    with j show ?thesis by simp
  next
    case (Suc k)
    with j show ?thesis by blast
  qed
next
  assume "Q 0 \<or> (\<exists>j. Q (Suc j))"
  then show "\<exists>j. Q j" by blast
qed

lemma ex_reaches_Cons:
  "(\<exists>j. reaches_exon c ((s, e) # xs) j \<and> P j) \<longleftrightarrow>
     P 0 \<or> (s \<le> e \<and> c \<le> s \<and> (\<exists>j. reaches_exon e xs j \<and> P (Suc j)))"
  by (subst ex_nat_split) (simp add: reaches_exon_0 reaches_exon_Suc)

lemma errors_distinct: "inverted_exon \<noteq> need_merging"
  by (simp add: inverted_exon_def need_merging_def)

lemma intron_loop_need_merging:
  "intron_loop c res exs = Inl need_merging \<longleftrightarrow>
     (\<exists>j. reaches_exon c exs j \<and> fst (exs ! j) \<le> snd (exs ! j) \<and> fst (exs ! j) < cursor_at c exs j)"
proof (induction exs arbitrary: c res)
  case Nil
  then show ?case by (simp add: reaches_exon_Nil)
next
  case (Cons x xs)
  obtain s e where x: "x = (s, e)" by (cases x)
  show ?case
    unfolding x ex_reaches_Cons
    using errors_distinct by (simp add: Cons.IH cursor_at_Cons_Suc cursor_at_0)
qed

lemma intron_loop_inverted:
  "intron_loop c res exs = Inl inverted_exon \<longleftrightarrow>
     (\<exists>j. reaches_exon c exs j \<and> snd (exs ! j) < fst (exs ! j))"
proof (induction exs arbitrary: c res)
  case Nil
  then show ?case by (simp add: reaches_exon_Nil)
next
  case (Cons x xs)
  obtain s e where x: "x = (s, e)" by (cases x)
  show ?case
    unfolding x ex_reaches_Cons
    using errors_distinct by (simp add: Cons.IH)
qed

lemma covered_Nil: "covered [] = {}"
  by (simp add: covered_def)

lemma covered_Cons: "covered ((s, e) # ivs) = {s..<e} \<union> covered ivs"
  by (simp add: covered_def)

lemma covered_append: "covered (xs @ ys) = covered xs \<union> covered ys"
  by (auto simp: covered_def)

lemma complementary_gaps_Cons:
  "complementary_gaps ((s, e) # xs) c r =
     (if c < s then [(c, s)] else []) @ complementary_gaps xs e r"
  by (cases xs) (simp_all add: complementary_gaps_def)

lemma complementary_gaps_Nil:
  "complementary_gaps [] c r = (if c < r then [(c, r)] else [])"
  by (simp add: complementary_gaps_def)

lemma intron_deriver_gaps:
  assumes "sorted_wrt (\<lambda>a b. snd a \<le> fst b) exs"
    and "\<forall>(s, e)\<in>set exs. c \<le> s \<and> s \<le> e"
  shows "\<exists>c' res'. intron_loop c res exs = Inr (c', res') \<and>
           (if c' < r then res' @ [(c', r)] else res') = res @ complementary_gaps exs c r"
  using assms
proof (induction exs arbitrary: c res)
  case Nil
  then show ?case by (simp add: complementary_gaps_Nil)
next
  case (Cons x xs)
  obtain s e where x: "x = (s, e)" by (cases x)
  from Cons.prems have se: "c \<le> s" "s \<le> e" and
    tl: "sorted_wrt (\<lambda>a b. snd a \<le> fst b) xs" "\<forall>(s', e')\<in>set xs. e \<le> s' \<and> s' \<le> e'"
    by (auto simp: x)
  show ?case
  proof (cases "c = s")
    case True
    with Cons.IH [OF tl, of res] se show ?thesis
      by (simp add: x complementary_gaps_Cons)
  next
    case False
    with Cons.IH [OF tl, of "res @ [(c, s)]"] se show ?thesis
      by (simp add: x complementary_gaps_Cons)
  qed
qed

lemma intron_intervals_gaps:
  assumes "sorted_wrt (\<lambda>a b. snd a \<le> fst b) exs"
    and "\<forall>(s, e)\<in>set exs. c \<le> s \<and> s \<le> e"
  shows "intron_intervals_from_exons mi exs c r False = Inr (complementary_gaps exs c r)"
proof -
  obtain c' res' where "intron_loop c [] exs = Inr (c', res')"
    and "(if c' < r then res' @ [(c', r)] else res') = [] @ complementary_gaps exs c r"
    using intron_deriver_gaps [OF assms] by blast
  then show ?thesis
    by (simp add: intron_intervals_from_exons_def)
qed

lemma complementary_gaps_covered:
  assumes "sorted_wrt (\<lambda>a b. snd a \<le> fst b) exs"
    and "\<forall>(s, e)\<in>set exs. c \<le> s \<and> s \<le> e \<and> e \<le> r"
  shows "covered (complementary_gaps exs c r) = {c..<r} - covered exs"
  using assms
proof (induction exs arbitrary: c)
  case Nil
  then show ?case by (simp add: complementary_gaps_Nil covered_Nil covered_Cons)
next
  case (Cons x xs)
  obtain s e where x: "x = (s, e)" by (cases x)
  from Cons.prems have se: "c \<le> s" "s \<le> e" "e \<le> r" and
    tl: "sorted_wrt (\<lambda>a b. snd a \<le> fst b) xs" "\<forall>(s', e')\<in>set xs. e \<le> s' \<and> s' \<le> e' \<and> e' \<le> r"
    by (auto simp: x)
  have sub: "covered xs \<subseteq> {e..<r}"
    using tl(2) by (fastforce simp: covered_def)
  have "covered (complementary_gaps (x # xs) c r) = {c..<s} \<union> ({e..<r} - covered xs)"
    using Cons.IH [OF tl] by (simp add: x complementary_gaps_Cons covered_append covered_Cons covered_Nil)
  also have "\<dots> = {c..<r} - covered (x # xs)"
    using se sub by (auto simp: x covered_Cons)
  finally show ?case .
qed


section \<open>Transcripts without exons\<close>

text \<open>
  C10. A transcript whose exon list is empty has the single intron
  \<open>(gene.start, gene.stop)\<close> when the owning gene's start is below its stop, and no intron
  otherwise (in particular when start and stop are equal); no error is raised.
\<close>

theorem transcript_introns_no_exons:
  assumes "Transcript.exons tr = []"
  shows "Transcript_introns merge_intervals tr =
           Inr (if Gene.start (Transcript.gene tr) < Gene.stop (Transcript.gene tr)
                then [(Gene.start (Transcript.gene tr), Gene.stop (Transcript.gene tr))]
                else [])"
  using assms
  by (simp add: Transcript_introns_def exons_tuples_def intron_intervals_from_exons_def)

theorem transcript_introns_no_exons_witness:
  "Transcript.exons (Transcript ''T1'' ''G1'' ''t'' ''1'' 10 20 1 ''protein_coding'' [] []
       (Gene ''G1'' ''g'' ''1'' 5 30 1 ''protein_coding'' None)) = []
   \<and> Transcript_introns Inr (Transcript ''T1'' ''G1'' ''t'' ''1'' 10 20 1 ''protein_coding'' [] []
       (Gene ''G1'' ''g'' ''1'' 5 30 1 ''protein_coding'' None)) = Inr [(5, 30)]
   \<and> Transcript_introns Inr (Transcript ''T1'' ''G1'' ''t'' ''1'' 7 7 1 ''protein_coding'' [] []
       (Gene ''G1'' ''g'' ''1'' 7 7 1 ''protein_coding'' None)) = Inr []"
  using transcript_introns_no_exons
          [of "Transcript ''T1'' ''G1'' ''t'' ''1'' 10 20 1 ''protein_coding'' [] []
                 (Gene ''G1'' ''g'' ''1'' 5 30 1 ''protein_coding'' None)" Inr]
        transcript_introns_no_exons
          [of "Transcript ''T1'' ''G1'' ''t'' ''1'' 7 7 1 ''protein_coding'' [] []
                 (Gene ''G1'' ''g'' ''1'' 7 7 1 ''protein_coding'' None)" Inr]
  by simp


section \<open>The gaps between the exons\<close>

lemma complementary_gaps_proper: "\<forall>(a, b)\<in>set (complementary_gaps exs c r). a < b"
proof (induction exs arbitrary: c)
  case Nil
  show ?case by (simp add: complementary_gaps_Nil)
next
  case (Cons x xs)
  obtain s e where x: "x = (s, e)" by (cases x)
  show ?case using Cons.IH [of e] by (auto simp: x complementary_gaps_Cons)
qed

lemma covered_empty_proper:
  assumes "\<forall>(a, b)\<in>set ivs. a < b" and "covered ivs = {}"
  shows "ivs = []"
proof (cases ivs)
  case Nil
  then show ?thesis .
next
  case (Cons p ps)
  obtain a b where p: "p = (a, b)" by (cases p)
  from assms(1) have "a < b" by (simp add: Cons p)
  then have "a \<in> covered ivs" by (simp add: Cons p covered_Cons)
  with assms(2) show ?thesis by simp
qed

text \<open>
  C3. For exons that are sorted ascending, do not overlap (no stop lies above a later
  start) and lie inside the region, each with start at most stop, the intron deriver
  called without merging returns exactly the gaps of the specification, in their order:
  the leading gap, the gaps between consecutive exons, the trailing gap. These gaps cover
  exactly the part of the region that no exon covers, and when the exons cover the whole
  region no intron is returned. Called with merging, the deriver returns the same gaps
  for such exons when the list is not empty and \<^verbatim>\<open>merge_intervals\<close> hands the table of these
  exons back as it is; for the empty exon list it raises \<^verbatim>\<open>IndexError\<close>, where the whole
  region is the one gap.
\<close>

theorem intron_deriver_complement:
  assumes "sorted (map fst exs)"
    and "sorted_wrt (\<lambda>prev next. snd prev \<le> fst next) exs"
    and "\<forall>(s, e)\<in>set exs. s \<le> e \<and> region_start \<le> s \<and> e \<le> region_stop"
  shows "intron_intervals_from_exons merge_intervals exs region_start region_stop False =
           Inr (complementary_gaps exs region_start region_stop)
       \<and> covered (complementary_gaps exs region_start region_stop) =
           {region_start..<region_stop} - covered exs
       \<and> ({region_start..<region_stop} \<subseteq> covered exs \<longrightarrow>
            intron_intervals_from_exons merge_intervals exs region_start region_stop False =
              Inr [])
       \<and> (exs \<noteq> [] \<and>
          merge_intervals \<lparr>df_chr = replicate (length exs) ''X'',
                           df_start = map fst exs, df_stop = map snd exs\<rparr> =
            Inr \<lparr>df_chr = replicate (length exs) ''X'',
                 df_start = map fst exs, df_stop = map snd exs\<rparr> \<longrightarrow>
          intron_intervals_from_exons merge_intervals exs region_start region_stop True =
            Inr (complementary_gaps exs region_start region_stop))
       \<and> intron_intervals_from_exons merge_intervals [] region_start region_stop True =
           Inl list_index_out_of_range"
proof -
  have wf: "\<forall>(s, e)\<in>set exs. region_start \<le> s \<and> s \<le> e"
    using assms(3) by auto
  have inside: "\<forall>(s, e)\<in>set exs. region_start \<le> s \<and> s \<le> e \<and> e \<le> region_stop"
    using assms(3) by auto
  have run: "intron_intervals_from_exons merge_intervals exs region_start region_stop False =
               Inr (complementary_gaps exs region_start region_stop)"
    by (rule intron_intervals_gaps [OF assms(2) wf])
  have cov: "covered (complementary_gaps exs region_start region_stop) =
               {region_start..<region_stop} - covered exs"
    by (rule complementary_gaps_covered [OF assms(2) inside])
  have full: "complementary_gaps exs region_start region_stop = []"
    if "{region_start..<region_stop} \<subseteq> covered exs"
  proof (rule covered_empty_proper [OF complementary_gaps_proper])
    show "covered (complementary_gaps exs region_start region_stop) = {}"
      using that cov by blast
  qed
  have empty_merge:
    "intron_intervals_from_exons merge_intervals [] region_start region_stop True =
       Inl list_index_out_of_range"
    by (simp add: intron_intervals_from_exons_def)
  have merging:
    "intron_intervals_from_exons merge_intervals exs region_start region_stop True =
       Inr (complementary_gaps exs region_start region_stop)"
    if "exs \<noteq> []"
      and "merge_intervals \<lparr>df_chr = replicate (length exs) ''X'',
                            df_start = map fst exs, df_stop = map snd exs\<rparr> =
             Inr \<lparr>df_chr = replicate (length exs) ''X'',
                  df_start = map fst exs, df_stop = map snd exs\<rparr>"
  proof -
    have "intron_intervals_from_exons merge_intervals exs region_start region_stop True =
            intron_intervals_from_exons merge_intervals exs region_start region_stop False"
      using that by (simp add: intron_intervals_from_exons_def zip_map_fst_snd)
    with run show ?thesis by simp
  qed
  show ?thesis
  proof (intro conjI impI)
    show "intron_intervals_from_exons merge_intervals exs region_start region_stop False =
            Inr (complementary_gaps exs region_start region_stop)"
      by (rule run)
    show "covered (complementary_gaps exs region_start region_stop) =
            {region_start..<region_stop} - covered exs"
      by (rule cov)
    show "intron_intervals_from_exons merge_intervals exs region_start region_stop False = Inr []"
      if "{region_start..<region_stop} \<subseteq> covered exs"
      using run full [OF that] by simp
    show "intron_intervals_from_exons merge_intervals exs region_start region_stop True =
            Inr (complementary_gaps exs region_start region_stop)"
      if "exs \<noteq> [] \<and>
          merge_intervals \<lparr>df_chr = replicate (length exs) ''X'',
                           df_start = map fst exs, df_stop = map snd exs\<rparr> =
            Inr \<lparr>df_chr = replicate (length exs) ''X'',
                 df_start = map fst exs, df_stop = map snd exs\<rparr>"
      using that by (intro merging) simp_all
    show "intron_intervals_from_exons merge_intervals [] region_start region_stop True =
            Inl list_index_out_of_range"
      by (rule empty_merge)
  qed
qed

theorem intron_deriver_complement_witness:
  "sorted (map fst ([(10, 20), (50, 60)] :: interval list))
   \<and> sorted_wrt (\<lambda>prev next. snd prev \<le> fst next) ([(10, 20), (50, 60)] :: interval list)
   \<and> list_all (\<lambda>(s, e). s \<le> e \<and> 0 \<le> s \<and> e \<le> 100) ([(10, 20), (50, 60)] :: interval list)
   \<and> intron_intervals_from_exons Inr [(10, 20), (50, 60)] 0 100 False =
       Inr [(0, 10), (20, 50), (60, 100)]
   \<and> intron_intervals_from_exons Inr [(0, 10)] 0 10 False = Inr []
   \<and> intron_intervals_from_exons Inr [(10, 20), (50, 60)] 0 100 True =
       Inr [(0, 10), (20, 50), (60, 100)]
   \<and> intron_intervals_from_exons Inr [] 0 100 False = Inr [(0, 100)]
   \<and> intron_intervals_from_exons Inr [] 0 100 True = Inl list_index_out_of_range"
  using intron_deriver_complement [of "[(10, 20), (50, 60)]" 0 100 Inr]
        intron_deriver_complement [of "[]" 0 100 Inr]
        intron_deriver_complement [of "[(0, 10)]" 0 10 Inr]
  by (simp add: complementary_gaps_def covered_def)


section \<open>Errors of the intron deriver\<close>

lemma intron_intervals_error:
  "intron_intervals_from_exons merge_intervals exs gene_start gene_stop False = Inl err \<longleftrightarrow>
     intron_loop gene_start [] exs = Inl err"
  by (simp add: intron_intervals_from_exons_def split: sum.splits)

text \<open>
  C6 as stated fails: in \<open>[(0,10),(8,5)]\<close> the loop comes to an exon that starts below the
  cursor, but the exon is inverted and the inversion test of line 60 comes first.
\<close>

theorem overlapping_exons_inverted_counterexample:
  "intron_intervals_from_exons Inr [(0, 10), (8, 5)] 0 100 False = Inl inverted_exon"
  by (simp add: intron_intervals_from_exons_def)

text \<open>
  C6, amended. Called without merging, the intron deriver raises the error about exons
  that need merging exactly when its loop comes to an exon that is not inverted (its
  start is at most its stop) and starts below the cursor; then it returns no introns. The
  exons \<open>[(0,10),(5,15)]\<close> raise it for every region.
\<close>

theorem overlapping_exons_error:
  "(intron_intervals_from_exons merge_intervals exs gene_start gene_stop False =
      Inl need_merging \<longleftrightarrow>
    (\<exists>j. reaches_exon gene_start exs j \<and> fst (exs ! j) \<le> snd (exs ! j) \<and>
         fst (exs ! j) < cursor_at gene_start exs j))
   \<and> intron_intervals_from_exons merge_intervals [(0, 10), (5, 15)] gene_start gene_stop False =
       Inl need_merging"
  by (simp add: intron_intervals_error intron_loop_need_merging)

theorem overlapping_exons_error_witness:
  "reaches_exon 0 [(0, 10), (5, 15)] 1
   \<and> fst (([(0, 10), (5, 15)] :: interval list) ! 1) < cursor_at 0 [(0, 10), (5, 15)] 1
   \<and> intron_intervals_from_exons Inr [(0, 10), (5, 15)] 0 100 False = Inl need_merging
   \<and> intron_intervals_from_exons Inr [(0, 10), (10, 15)] 0 100 False \<noteq> Inl need_merging"
proof -
  have r: "reaches_exon 0 [(0, 10), (5, 15)] 1"
    by (simp add: reaches_exon_def cursor_at_def)
  have c: "fst (([(0, 10), (5, 15)] :: interval list) ! 1) < cursor_at 0 [(0, 10), (5, 15)] 1"
    by (simp add: cursor_at_def)
  have "\<exists>j. reaches_exon 0 [(0, 10), (5, 15)] j \<and>
            fst (([(0, 10), (5, 15)] :: interval list) ! j) \<le> snd (([(0, 10), (5, 15)] :: interval list) ! j) \<and>
            fst (([(0, 10), (5, 15)] :: interval list) ! j) < cursor_at 0 [(0, 10), (5, 15)] j"
    using r c by (intro exI [of _ 1]) simp
  then have a: "intron_intervals_from_exons Inr [(0, 10), (5, 15)] 0 100 False = Inl need_merging"
    using overlapping_exons_error [of Inr "[(0, 10), (5, 15)]" 0 100] by simp
  have b: "intron_intervals_from_exons Inr [(0, 10), (10, 15)] 0 100 False \<noteq> Inl need_merging"
    by (simp add: intron_intervals_from_exons_def)
  from r c a b show ?thesis by simp
qed

text \<open>
  C7 as stated fails: \<^verbatim>\<open>merge_exons\<close> has no test for an inverted interval, and returns
  the interval \<open>(10, 5)\<close> as it got it.
\<close>

theorem merge_exons_inverted_counterexample:
  "merge_exons_result [(10, 5)] = Some (Inr ([10], [5]))"
  by (simp add: merge_exons_result_def merge_exons_def np_array_def int64_def
      merge_while.simps merge_body_def mask_select_def)

text \<open>
  C7, amended. Called without merging, the intron deriver raises the error about an
  inverted exon exactly when its loop comes to an exon whose stop is below its start; the
  exon \<open>(10, 5)\<close> raises it for every region.
\<close>

theorem inverted_exon_error:
  "(intron_intervals_from_exons merge_intervals exs gene_start gene_stop False =
      Inl inverted_exon \<longleftrightarrow>
    (\<exists>j. reaches_exon gene_start exs j \<and> snd (exs ! j) < fst (exs ! j)))
   \<and> intron_intervals_from_exons merge_intervals [(10, 5)] gene_start gene_stop False =
       Inl inverted_exon"
  by (simp add: intron_intervals_error intron_loop_inverted)

theorem inverted_exon_error_witness:
  "reaches_exon 0 [(0, 10), (30, 20)] 1
   \<and> snd (([(0, 10), (30, 20)] :: interval list) ! 1) < fst (([(0, 10), (30, 20)] :: interval list) ! 1)
   \<and> intron_intervals_from_exons Inr [(0, 10), (30, 20)] 0 100 False = Inl inverted_exon
   \<and> intron_intervals_from_exons Inr [(0, 10), (20, 30)] 0 100 False \<noteq> Inl inverted_exon"
proof -
  have r: "reaches_exon 0 [(0, 10), (30, 20)] 1"
    by (simp add: reaches_exon_def cursor_at_def)
  have c: "snd (([(0, 10), (30, 20)] :: interval list) ! 1) < fst (([(0, 10), (30, 20)] :: interval list) ! 1)"
    by simp
  have "\<exists>j. reaches_exon 0 [(0, 10), (30, 20)] j \<and>
            snd (([(0, 10), (30, 20)] :: interval list) ! j) < fst (([(0, 10), (30, 20)] :: interval list) ! j)"
    using r c by (intro exI [of _ 1]) simp
  then have a: "intron_intervals_from_exons Inr [(0, 10), (30, 20)] 0 100 False = Inl inverted_exon"
    using inverted_exon_error [of Inr "[(0, 10), (30, 20)]" 0 100] by simp
  have b: "intron_intervals_from_exons Inr [(0, 10), (20, 30)] 0 100 False \<noteq> Inl inverted_exon"
    by (simp add: intron_intervals_from_exons_def)
  from r c a b show ?thesis by simp
qed


section \<open>Introns of a transcript\<close>

lemma exons_tuples_id: "exons_tuples tr = Transcript.exons tr"
  by (simp add: exons_tuples_def)

text \<open>
  C8. The introns of a transcript are what the intron deriver returns, without merging,
  for the transcript's sorted exons and the start and stop of its gene. They depend on the
  transcript only through its exons and its gene, not through its own start and stop.
  When the sorted exons do not overlap and none begins below the gene's start, the first
  intron runs from the gene's start to the first exon if the gene starts below it, and the
  last intron runs from the last exon to the gene's stop if that exon stops below it.
\<close>

theorem transcript_introns_gene_bounds:
  "Transcript_introns merge_intervals tr =
     intron_intervals_from_exons merge_intervals (sort (Transcript.exons tr))
       (Gene.start (Transcript.gene tr)) (Gene.stop (Transcript.gene tr)) False
   \<and> (Transcript.exons tr' = Transcript.exons tr \<and> Transcript.gene tr' = Transcript.gene tr \<longrightarrow>
        Transcript_introns merge_intervals tr' = Transcript_introns merge_intervals tr)
   \<and> (Transcript.exons tr \<noteq> [] \<and>
       sorted_wrt (\<lambda>prev next. snd prev \<le> fst next) (sort (Transcript.exons tr)) \<and>
       (\<forall>(s, e)\<in>set (Transcript.exons tr). Gene.start (Transcript.gene tr) \<le> s \<and> s \<le> e) \<longrightarrow>
        (\<exists>introns. Transcript_introns merge_intervals tr = Inr introns \<and>
           (Gene.start (Transcript.gene tr) < fst (hd (sort (Transcript.exons tr))) \<longrightarrow>
              introns \<noteq> [] \<and>
              hd introns = (Gene.start (Transcript.gene tr), fst (hd (sort (Transcript.exons tr))))) \<and>
           (snd (last (sort (Transcript.exons tr))) < Gene.stop (Transcript.gene tr) \<longrightarrow>
              introns \<noteq> [] \<and>
              last introns = (snd (last (sort (Transcript.exons tr))), Gene.stop (Transcript.gene tr)))))"
proof (intro conjI impI)
  show "Transcript_introns merge_intervals tr =
     intron_intervals_from_exons merge_intervals (sort (Transcript.exons tr))
       (Gene.start (Transcript.gene tr)) (Gene.stop (Transcript.gene tr)) False"
    by (simp add: Transcript_introns_def exons_tuples_id)
next
  assume "Transcript.exons tr' = Transcript.exons tr \<and> Transcript.gene tr' = Transcript.gene tr"
  then show "Transcript_introns merge_intervals tr' = Transcript_introns merge_intervals tr"
    by (simp add: Transcript_introns_def exons_tuples_id)
next
  let ?exs = "sort (Transcript.exons tr)"
  let ?gs = "Gene.start (Transcript.gene tr)"
  let ?ge = "Gene.stop (Transcript.gene tr)"
  assume h: "Transcript.exons tr \<noteq> [] \<and>
       sorted_wrt (\<lambda>prev next. snd prev \<le> fst next) ?exs \<and>
       (\<forall>(s, e)\<in>set (Transcript.exons tr). ?gs \<le> s \<and> s \<le> e)"
  then have ne: "?exs \<noteq> []"
    by (metis length_sort length_0_conv)
  from h have wf: "\<forall>(s, e)\<in>set ?exs. ?gs \<le> s \<and> s \<le> e"
    by simp
  from h have "sorted_wrt (\<lambda>prev next. snd prev \<le> fst next) ?exs" by simp
  then have run: "Transcript_introns merge_intervals tr = Inr (complementary_gaps ?exs ?gs ?ge)"
    using wf by (simp add: Transcript_introns_def exons_tuples_id intron_intervals_gaps)
  show "\<exists>introns. Transcript_introns merge_intervals tr = Inr introns \<and>
           (?gs < fst (hd ?exs) \<longrightarrow> introns \<noteq> [] \<and> hd introns = (?gs, fst (hd ?exs))) \<and>
           (snd (last ?exs) < ?ge \<longrightarrow> introns \<noteq> [] \<and> last introns = (snd (last ?exs), ?ge))"
    unfolding run using ne by (simp add: complementary_gaps_def)
qed

theorem transcript_introns_gene_bounds_witness:
  "Transcript.exons
     (Transcript ''T1'' ''G1'' ''t'' ''1'' 10 60 1 ''protein_coding'' [(50, 60), (10, 20)]
        [''E2'', ''E1''] (Gene ''G1'' ''g'' ''1'' 0 100 1 ''protein_coding'' None)) \<noteq> []
   \<and> sorted_wrt (\<lambda>prev next. snd prev \<le> fst next) (sort ([(50, 60), (10, 20)] :: interval list))
   \<and> list_all (\<lambda>(s, e). 0 \<le> s \<and> s \<le> e) ([(50, 60), (10, 20)] :: interval list)
   \<and> Transcript_introns Inr
     (Transcript ''T1'' ''G1'' ''t'' ''1'' 10 60 1 ''protein_coding'' [(50, 60), (10, 20)]
        [''E2'', ''E1''] (Gene ''G1'' ''g'' ''1'' 0 100 1 ''protein_coding'' None)) =
     Inr [(0, 10), (20, 50), (60, 100)]
   \<and> Transcript_introns Inr
     (Transcript ''T1'' ''G1'' ''t'' ''1'' 0 100 1 ''protein_coding'' [(50, 60), (10, 20)]
        [''E2'', ''E1''] (Gene ''G1'' ''g'' ''1'' 0 100 1 ''protein_coding'' None)) =
     Inr [(0, 10), (20, 50), (60, 100)]"
  using transcript_introns_gene_bounds
    [of Inr "Transcript ''T1'' ''G1'' ''t'' ''1'' 10 60 1 ''protein_coding'' [(50, 60), (10, 20)]
        [''E2'', ''E1''] (Gene ''G1'' ''g'' ''1'' 0 100 1 ''protein_coding'' None)"
      "Transcript ''T1'' ''G1'' ''t'' ''1'' 0 100 1 ''protein_coding'' [(50, 60), (10, 20)]
        [''E2'', ''E1''] (Gene ''G1'' ''g'' ''1'' 0 100 1 ''protein_coding'' None)"]
  by (simp add: intron_intervals_from_exons_def)


section \<open>Genes without transcripts\<close>

text \<open>
  C2. For a gene whose list of transcripts is empty, \<^verbatim>\<open>exons_merged\<close> returns two empty
  sequences, but \<^verbatim>\<open>introns\<close> raises \<^verbatim>\<open>IndexError\<close>: the merging branch of the intron deriver
  indexes the empty \<^verbatim>\<open>zip_exons\<close>.
\<close>

theorem gene_without_transcripts:
  "exons_merged (Gene gid nm c s e sd bt (Some [])) = Some (Inr ([], []))
   \<and> Gene_introns merge_intervals (Gene gid nm c s e sd bt (Some [])) =
       Inl list_index_out_of_range"
  by (simp add: exons_merged_def Gene_exons_def merge_exons_def np_array_def
      merge_while.simps mask_select_def Gene_introns_def intron_intervals_from_exons_def)


section \<open>What \<^verbatim>\<open>merge_exons\<close> does to its argument\<close>

text \<open>
  C9 as stated fails: the list \<open>[(5,6),(1,2)]\<close> is left in another order.
\<close>

theorem merge_exons_mutates_counterexample:
  "fst (merge_exons [(5, 6), (1, 2)]) = [(1, 2), (5, 6)]"
  by (simp add: merge_exons_def Let_def)

text \<open>
  C9, amended. \<^verbatim>\<open>merge_exons\<close> leaves the caller's list sorted ascending by
  \<open>(start, stop)\<close>, with the same elements as before; the list is unchanged exactly when it
  was sorted already. \<^verbatim>\<open>_reformat_exons\<close> does the same.
\<close>

theorem merge_exons_sorts_argument:
  "fst (merge_exons exs) = sort exs
   \<and> mset (fst (merge_exons exs)) = mset exs
   \<and> (fst (merge_exons exs) = exs \<longleftrightarrow> sorted exs)
   \<and> fst (reformat_exons exs) = sort exs"
proof -
  have "sort exs = exs \<longleftrightarrow> sorted exs"
    by (metis sorted_sort sorted_sort_id)
  then show ?thesis
    by (simp add: merge_exons_def reformat_exons_def Let_def)
qed


section \<open>The loop of \<^verbatim>\<open>merge_exons\<close>\<close>

lemma mask_select_append:
  "length a1 = length k1 \<Longrightarrow>
     mask_select (a1 @ a2) (k1 @ k2) = mask_select a1 k1 @ mask_select a2 k2"
  by (simp add: mask_select_def)

lemma mask_select_snoc_True:
  "length a = length k \<Longrightarrow> mask_select (a @ [x]) (k @ [True]) = mask_select a k @ [x]"
  by (simp add: mask_select_def)

lemma mask_select_snoc_False:
  "length a = length k \<Longrightarrow> mask_select (a @ [x]) (k @ [False]) = mask_select a k"
  by (simp add: mask_select_def)

lemma merge_while_sweep:
  assumes "length Pe = length Ps" and "length Pk = length Ps"
  shows "\<exists>v'. merge_while (Suc (length Ps) + length R)
            \<lparr>starts = Ps @ cs # map fst R, stops = Pe @ ce # map snd R,
             keep = Pk @ False # replicate (length R) False,
             last_stop = ls, last_row = Some (length Ps), ii = Suc (length Ps)\<rparr> = Inr v'
          \<and> (\<exists>r. last_row v' = Some r
              \<and> mask_select (starts v') ((keep v')[r := True]) =
                  mask_select Ps Pk @ map fst (sweep cs ce ls R)
              \<and> mask_select (stops v') ((keep v')[r := True]) =
                  mask_select Pe Pk @ map snd (sweep cs ce ls R))"
  using assms
proof (induction R arbitrary: Ps Pe Pk cs ce ls)
  case Nil
  show ?case
    using Nil by (subst merge_while.simps) (simp add: list_update_append mask_select_snoc_True)
next
  case (Cons x R)
  obtain s e where x: "x = (s, e)" by (cases x)
  let ?N = "Suc (length Ps) + length (x # R)"
  let ?v = "\<lparr>starts = Ps @ cs # map fst (x # R), stops = Pe @ ce # map snd (x # R),
             keep = Pk @ False # replicate (length (x # R)) False,
             last_stop = ls, last_row = Some (length Ps), ii = Suc (length Ps)\<rparr>"
  have N: "?N = Suc (length (Ps @ [cs])) + length R"
    by simp
  show ?case
  proof (cases "s < ls")
    case True
    let ?v' = "\<lparr>starts = (Ps @ [cs]) @ cs # map fst R, stops = (Pe @ [ce]) @ max e ls # map snd R,
             keep = (Pk @ [False]) @ False # replicate (length R) False,
             last_stop = max e ls, last_row = Some (length (Ps @ [cs])),
             ii = Suc (length (Ps @ [cs]))\<rparr>"
    have body: "merge_body ?N ?v = Inr ?v'"
      using True Cons.prems
      by (simp add: merge_body_def x nth_append list_update_append max_def)
    have step: "merge_while ?N ?v = merge_while ?N ?v'"
      by (subst merge_while.simps, simp only: body sum.case) simp
    have len: "length (Pe @ [ce]) = length (Ps @ [cs])" "length (Pk @ [False]) = length (Ps @ [cs])"
      using Cons.prems by simp_all
    show ?thesis
      unfolding step unfolding N
      using Cons.IH [OF len, of cs "max e ls" "max e ls"] True Cons.prems
      by (simp add: x mask_select_snoc_False)
  next
    case False
    let ?v' = "\<lparr>starts = (Ps @ [cs]) @ s # map fst R, stops = (Pe @ [ce]) @ e # map snd R,
             keep = (Pk @ [True]) @ False # replicate (length R) False,
             last_stop = max e ls, last_row = Some (length (Ps @ [cs])),
             ii = Suc (length (Ps @ [cs]))\<rparr>"
    have body: "merge_body ?N ?v = Inr ?v'"
      using False Cons.prems
      by (simp add: merge_body_def x nth_append list_update_append max_def)
    have step: "merge_while ?N ?v = merge_while ?N ?v'"
      by (subst merge_while.simps, simp only: body sum.case) simp
    have len: "length (Pe @ [ce]) = length (Ps @ [cs])" "length (Pk @ [True]) = length (Ps @ [cs])"
      using Cons.prems by simp_all
    show ?thesis
      unfolding step unfolding N
      using Cons.IH [OF len, of s e "max e ls"] False Cons.prems
      by (simp add: x mask_select_snoc_True)
  qed
qed

lemma merge_exons_empty: "merge_exons_result [] = Some (Inr ([], []))"
  by (simp add: merge_exons_result_def merge_exons_def np_array_def merge_while.simps
      mask_select_def)

lemma merge_exons_sweep:
  assumes srt: "sort exs = (s0, e0) # R" and s0: "0 \<le> s0"
    and cells: "\<forall>(s, e)\<in>set exs. int64 s \<and> int64 e"
  shows "merge_exons_result exs =
           Some (Inr (map fst (sweep s0 e0 (max e0 0) R), map snd (sweep s0 e0 (max e0 0) R)))"
proof -
  let ?N = "Suc (length R)"
  let ?v0 = "\<lparr>starts = s0 # map fst R, stops = e0 # map snd R,
              keep = False # replicate (length R) False,
              last_stop = 0, last_row = None, ii = 0\<rparr>"
  let ?v1 = "\<lparr>starts = s0 # map fst R, stops = e0 # map snd R,
              keep = False # replicate (length R) False,
              last_stop = max e0 0, last_row = Some 0, ii = Suc 0\<rparr>"
  have "set ((s0, e0) # R) = set exs"
    using srt by (metis set_sort)
  then have inR: "\<forall>(s, e)\<in>set ((s0, e0) # R). int64 s \<and> int64 e"
    using cells by simp
  have a1: "np_array (s0 # map fst R) = Some (s0 # map fst R)"
    using inR by (auto simp: np_array_def list_all_iff)
  have a2: "np_array (e0 # map snd R) = Some (e0 # map snd R)"
    using inR by (auto simp: np_array_def list_all_iff)
  have body: "merge_body ?N ?v0 = Inr ?v1"
    using s0 by (simp add: merge_body_def max_def)
  have step: "merge_while ?N ?v0 = merge_while ?N ?v1"
    by (subst merge_while.simps, simp only: body sum.case) simp
  obtain v' r where run: "merge_while ?N ?v1 = Inr v'" and r: "last_row v' = Some r"
    and sts: "mask_select (starts v') ((keep v')[r := True]) =
                map fst (sweep s0 e0 (max e0 0) R)"
    and sps: "mask_select (stops v') ((keep v')[r := True]) =
                map snd (sweep s0 e0 (max e0 0) R)"
    using merge_while_sweep [of "[]" "[]" "[]" R s0 e0 "max e0 0"]
    by (auto simp: mask_select_def)
  show ?thesis
    by (simp add: merge_exons_result_def merge_exons_def srt a1 a2 step run r sts sps)
qed

lemma sweep_induct [consumes 3, case_names Nil Overlap Apart]:
  assumes "cs \<le> ce" and "\<forall>(s, e)\<in>set xs. cs \<le> s \<and> s \<le> e" and "sorted (map fst xs)"
    and nil: "\<And>cs ce. cs \<le> ce \<Longrightarrow> P cs ce [] [(cs, ce)]"
    and overlap: "\<And>cs ce s e xs. cs \<le> ce \<Longrightarrow> cs \<le> s \<Longrightarrow> s \<le> e \<Longrightarrow> s < ce \<Longrightarrow>
        \<forall>(s', e')\<in>set xs. s \<le> s' \<and> s' \<le> e' \<Longrightarrow>
        P cs (max e ce) xs (sweep cs (max e ce) (max e ce) xs) \<Longrightarrow>
        P cs ce ((s, e) # xs) (sweep cs (max e ce) (max e ce) xs)"
    and apart: "\<And>cs ce s e xs. cs \<le> ce \<Longrightarrow> ce \<le> s \<Longrightarrow> s \<le> e \<Longrightarrow>
        \<forall>(s', e')\<in>set xs. s \<le> s' \<and> s' \<le> e' \<Longrightarrow>
        P s e xs (sweep s e e xs) \<Longrightarrow>
        P cs ce ((s, e) # xs) ((cs, ce) # sweep s e e xs)"
  shows "P cs ce xs (sweep cs ce ce xs)"
  using assms(1-3)
proof (induction xs arbitrary: cs ce)
  case Nil
  then show ?case by (simp add: nil)
next
  case (Cons x xs)
  obtain s e where x: "x = (s, e)" by (cases x)
  from Cons.prems have se: "cs \<le> s" "s \<le> e"
    and rest: "\<forall>(s', e')\<in>set xs. cs \<le> s' \<and> s' \<le> e'"
    and ge: "\<forall>(s', e')\<in>set xs. s \<le> s' \<and> s' \<le> e'"
    and srt: "sorted (map fst xs)"
    by (auto simp: x)
  show ?case
  proof (cases "s < ce")
    case True
    have m: "cs \<le> max e ce" using Cons.prems(1) by simp
    have "P cs (max e ce) xs (sweep cs (max e ce) (max e ce) xs)"
      by (rule Cons.IH [OF m rest srt])
    then have "P cs ce ((s, e) # xs) (sweep cs (max e ce) (max e ce) xs)"
      by (rule overlap [OF Cons.prems(1) se True ge])
    then show ?thesis using True by (simp add: x)
  next
    case False
    then have ces: "ce \<le> s" by simp
    have mx: "max e ce = e" using ces se by simp
    have "P s e xs (sweep s e e xs)"
      by (rule Cons.IH [OF se(2) ge srt])
    then have "P cs ce ((s, e) # xs) ((cs, ce) # sweep s e e xs)"
      by (rule apart [OF Cons.prems(1) ces se(2) ge])
    then show ?thesis using False by (simp add: x mx)
  qed
qed

lemma sweep_covered:
  assumes "cs \<le> ce" and "\<forall>(s, e)\<in>set xs. cs \<le> s \<and> s \<le> e" and "sorted (map fst xs)"
  shows "covered (sweep cs ce ce xs) = {cs..<ce} \<union> covered xs"
  using assms
proof (induction rule: sweep_induct)
  case (Nil cs ce)
  show ?case by (simp add: covered_Cons covered_Nil)
next
  case (Overlap cs ce s e xs)
  have "{cs..<max e ce} = {cs..<ce} \<union> {s..<e}"
    using Overlap(1-4) by auto
  with Overlap(6) show ?case by (simp add: covered_Cons Un_assoc)
next
  case (Apart cs ce s e xs)
  then show ?case by (simp add: covered_Cons)
qed

lemma sweep_chain:
  assumes "cs \<le> ce" and "\<forall>(s, e)\<in>set xs. cs \<le> s \<and> s \<le> e" and "sorted (map fst xs)"
  shows "sorted_wrt (\<lambda>a b. snd a \<le> fst b) (sweep cs ce ce xs)
       \<and> (\<forall>(a, b)\<in>set (sweep cs ce ce xs). cs \<le> a \<and> a \<le> b)"
  using assms
proof (induction rule: sweep_induct)
  case (Nil cs ce)
  then show ?case by simp
next
  case (Overlap cs ce s e xs)
  then show ?case by simp
next
  case (Apart cs ce s e xs)
  have ih1: "sorted_wrt (\<lambda>a b. snd a \<le> fst b) (sweep s e e xs)"
    and ih2: "\<forall>(a, b)\<in>set (sweep s e e xs). s \<le> a \<and> a \<le> b"
    using Apart(5) by simp_all
  have hd_ok: "\<forall>p\<in>set (sweep s e e xs). ce \<le> fst p"
    using ih2 Apart(2) by auto
  have all_ok: "\<forall>(a, b)\<in>set (sweep s e e xs). cs \<le> a \<and> a \<le> b"
    using ih2 Apart(1,2) by auto
  show ?case
    using ih1 hd_ok all_ok Apart(1) by simp
qed

lemma sweep_inside:
  assumes "cs \<le> ce" and "\<forall>(s, e)\<in>set xs. cs \<le> s \<and> s \<le> e" and "sorted (map fst xs)"
  shows "(\<exists>(a, b)\<in>set (sweep cs ce ce xs). a \<le> cs \<and> ce \<le> b)
       \<and> (\<forall>(s, e)\<in>set xs. \<exists>(a, b)\<in>set (sweep cs ce ce xs). a \<le> s \<and> e \<le> b)"
  using assms
proof (induction rule: sweep_induct)
  case (Nil cs ce)
  then show ?case by simp
next
  case (Overlap cs ce s e xs)
  obtain a b where ab: "(a, b) \<in> set (sweep cs (max e ce) (max e ce) xs)"
    and a: "a \<le> cs" and b: "max e ce \<le> b"
    using Overlap(6) by auto
  have run: "\<exists>(a, b)\<in>set (sweep cs (max e ce) (max e ce) xs). a \<le> cs \<and> ce \<le> b"
    using ab a b by (intro bexI [of _ "(a, b)"]) auto
  have new: "\<exists>(a, b)\<in>set (sweep cs (max e ce) (max e ce) xs). a \<le> s \<and> e \<le> b"
    using ab a b Overlap(2) by (intro bexI [of _ "(a, b)"]) auto
  have rest: "\<forall>(s', e')\<in>set xs.
                \<exists>(a, b)\<in>set (sweep cs (max e ce) (max e ce) xs). a \<le> s' \<and> e' \<le> b"
    using Overlap(6) by simp
  from run new rest show ?case by simp
next
  case (Apart cs ce s e xs)
  obtain a b where ab: "(a, b) \<in> set (sweep s e e xs)" and a: "a \<le> s" and b: "e \<le> b"
    using Apart(5) by auto
  have run: "\<exists>(a, b)\<in>set ((cs, ce) # sweep s e e xs). a \<le> cs \<and> ce \<le> b"
    by simp
  have new: "\<exists>(a, b)\<in>set ((cs, ce) # sweep s e e xs). a \<le> s \<and> e \<le> b"
    using ab a b by (intro bexI [of _ "(a, b)"]) auto
  have rest: "\<forall>(s', e')\<in>set xs. \<exists>(a, b)\<in>set ((cs, ce) # sweep s e e xs). a \<le> s' \<and> e' \<le> b"
  proof (clarify)
    fix s' e' assume "(s', e') \<in> set xs"
    then obtain a' b' where "(a', b') \<in> set (sweep s e e xs)" "a' \<le> s'" "e' \<le> b'"
      using Apart(5) by blast
    then show "\<exists>(a, b)\<in>set ((cs, ce) # sweep s e e xs). a \<le> s' \<and> e' \<le> b"
      by (intro bexI [of _ "(a', b')"]) auto
  qed
  from run new rest show ?case by simp
qed


lemma sweep_endpoints:
  assumes "cs \<le> ce" and "\<forall>(s, e)\<in>set xs. cs \<le> s \<and> s \<le> e" and "sorted (map fst xs)"
  shows "fst ` set (sweep cs ce ce xs) \<subseteq> insert cs (fst ` set xs)
       \<and> snd ` set (sweep cs ce ce xs) \<subseteq> insert ce (snd ` set xs)"
  using assms
proof (induction rule: sweep_induct)
  case (Nil cs ce)
  then show ?case by simp
next
  case (Overlap cs ce s e xs)
  have m: "max e ce = e \<or> max e ce = ce" by (simp add: max_def)
  have "snd ` set (sweep cs (max e ce) (max e ce) xs) \<subseteq> insert (max e ce) (snd ` set xs)"
    using Overlap(6) by simp
  then have stops: "snd ` set (sweep cs (max e ce) (max e ce) xs) \<subseteq>
                      insert ce (snd ` set ((s, e) # xs))"
    using m by auto
  have starts: "fst ` set (sweep cs (max e ce) (max e ce) xs) \<subseteq>
                  insert cs (fst ` set ((s, e) # xs))"
    using Overlap(6) by auto
  from starts stops show ?case by simp
next
  case (Apart cs ce s e xs)
  have "fst ` set (sweep s e e xs) \<subseteq> insert s (fst ` set xs)"
    and "snd ` set (sweep s e e xs) \<subseteq> insert e (snd ` set xs)"
    using Apart(5) by simp_all
  then show ?case by auto
qed

lemma sweep_interior:
  assumes "cs \<le> ce" and "\<forall>(s, e)\<in>set xs. cs \<le> s \<and> s \<le> e" and "sorted (map fst xs)"
  shows "\<forall>(a, b)\<in>set (sweep cs ce ce xs). \<forall>p. a < p \<and> p < b \<longrightarrow>
           (cs < p \<and> p < ce) \<or> (\<exists>(s, e)\<in>set xs. s < p \<and> p < e)"
  using assms
proof (induction rule: sweep_induct)
  case (Nil cs ce)
  then show ?case by simp
next
  case (Overlap cs ce s e xs)
  show ?case
  proof (intro ballI, clarify)
    fix a b p
    assume ab: "(a, b) \<in> set (sweep cs (max e ce) (max e ce) xs)" and p: "a < p" "p < b"
      and no: "\<not> (\<exists>(s', e')\<in>set ((s, e) # xs). s' < p \<and> p < e')"
    from Overlap(6) ab p
    have "(cs < p \<and> p < max e ce) \<or> (\<exists>(s', e')\<in>set xs. s' < p \<and> p < e')"
      by blast
    with no have c: "cs < p" "p < max e ce" by auto
    from no have "\<not> (s < p \<and> p < e)" by simp
    with c Overlap(4) show "cs < p \<and> p < ce" by (auto simp: max_def split: if_splits)
  qed
next
  case (Apart cs ce s e xs)
  show ?case
  proof (intro ballI, clarify)
    fix a b p
    assume ab: "(a, b) \<in> set ((cs, ce) # sweep s e e xs)" and p: "a < p" "p < b"
      and no: "\<not> (\<exists>(s', e')\<in>set ((s, e) # xs). s' < p \<and> p < e')"
    show "cs < p \<and> p < ce"
    proof (cases "(a, b) = (cs, ce)")
      case True
      with p show ?thesis by simp
    next
      case False
      with ab have "(a, b) \<in> set (sweep s e e xs)" by auto
      with Apart(5) p have "(s < p \<and> p < e) \<or> (\<exists>(s', e')\<in>set xs. s' < p \<and> p < e')"
        by blast
      with no show ?thesis by auto
    qed
  qed
qed

lemma sweep_merged:
  assumes "sorted_wrt (\<lambda>a b. snd a \<le> fst b) ((cs, ce) # xs)"
    and "\<forall>(s, e)\<in>set xs. s \<le> e"
  shows "sweep cs ce ce xs = (cs, ce) # xs"
  using assms
proof (induction xs arbitrary: cs ce)
  case Nil
  then show ?case by simp
next
  case (Cons x xs)
  obtain s e where x: "x = (s, e)" by (cases x)
  from Cons.prems have ces: "ce \<le> s" and se: "s \<le> e"
    and tl: "sorted_wrt (\<lambda>a b. snd a \<le> fst b) ((s, e) # xs)" "\<forall>(s', e')\<in>set xs. s' \<le> e'"
    by (auto simp: x)
  have mx: "max e ce = e" using ces se by simp
  show ?case
    using Cons.IH [OF tl] ces by (simp add: x mx)
qed

lemma sorted_fst: "sorted (xs :: interval list) \<Longrightarrow> sorted (map fst xs)"
  by (induction xs) (auto simp: less_eq_prod_def)

lemma merged_sorted:
  assumes "sorted_wrt (\<lambda>a b. snd a \<le> fst b) (r :: interval list)" and "\<forall>(a, b)\<in>set r. a \<le> b"
  shows "sorted r \<and> sorted (map fst r)"
  using assms by (induction r) (fastforce simp: less_eq_prod_def)+

lemma int64_nonneg: "0 \<le> n \<Longrightarrow> n < 2 ^ 63 \<Longrightarrow> int64 n"
  by (simp add: int64_def)

lemma merge_exons_output:
  assumes "\<forall>(s, e)\<in>set exs. 0 \<le> s \<and> s \<le> e \<and> e < 2 ^ 63"
  shows "\<exists>r. merge_exons_result exs = Some (Inr (map fst r, map snd r))
           \<and> covered r = covered exs
           \<and> sorted_wrt (\<lambda>a b. snd a \<le> fst b) r
           \<and> (\<forall>(a, b)\<in>set r. 0 \<le> a \<and> a \<le> b)
           \<and> (\<forall>(s, e)\<in>set exs. \<exists>(a, b)\<in>set r. a \<le> s \<and> e \<le> b)
           \<and> fst ` set r \<subseteq> fst ` set exs \<and> snd ` set r \<subseteq> snd ` set exs
           \<and> (\<forall>(a, b)\<in>set r. \<forall>p. a < p \<and> p < b \<longrightarrow> (\<exists>(s, e)\<in>set exs. s < p \<and> p < e))"
proof (cases "sort exs")
  case Nil
  then have "exs = []" by (metis length_sort length_0_conv)
  then show ?thesis
    by (intro exI [of _ "[]"]) (simp add: merge_exons_empty)
next
  case (Cons x R)
  obtain s0 e0 where x: "x = (s0, e0)" by (cases x)
  have srt: "sort exs = (s0, e0) # R" using Cons x by simp
  have set_eq: "set exs = insert (s0, e0) (set R)"
    using srt by (metis list.simps(15) set_sort)
  have wf0: "0 \<le> s0" "s0 \<le> e0" and wfR: "\<forall>(s, e)\<in>set R. 0 \<le> s \<and> s \<le> e"
    using assms set_eq by auto
  have cells: "\<forall>(s, e)\<in>set exs. int64 s \<and> int64 e"
    using assms by (auto intro!: int64_nonneg)
  have "sorted ((s0, e0) # R)" using srt by (metis sorted_sort)
  then have sf: "sorted (map fst ((s0, e0) # R))" by (rule sorted_fst)
  then have ge: "\<forall>(s, e)\<in>set R. s0 \<le> s" and sR: "sorted (map fst R)"
    by auto
  have wfR': "\<forall>(s, e)\<in>set R. s0 \<le> s \<and> s \<le> e"
    using wfR ge by auto
  have mx: "max e0 0 = e0" using wf0 by simp
  let ?r = "sweep s0 e0 e0 R"
  have res: "merge_exons_result exs = Some (Inr (map fst ?r, map snd ?r))"
    using merge_exons_sweep [OF srt wf0(1) cells] by (simp add: mx)
  have cov: "covered ?r = covered exs"
    using sweep_covered [OF wf0(2) wfR' sR] by (simp add: covered_def set_eq)
  have chain: "sorted_wrt (\<lambda>a b. snd a \<le> fst b) ?r"
    and wfr: "\<forall>(a, b)\<in>set ?r. s0 \<le> a \<and> a \<le> b"
    using sweep_chain [OF wf0(2) wfR' sR] by simp_all
  have nn: "\<forall>(a, b)\<in>set ?r. 0 \<le> a \<and> a \<le> b"
    using wfr wf0(1) by auto
  have inside: "\<forall>(s, e)\<in>set exs. \<exists>(a, b)\<in>set ?r. a \<le> s \<and> e \<le> b"
    using sweep_inside [OF wf0(2) wfR' sR] by (simp add: set_eq)
  have ends: "fst ` set ?r \<subseteq> fst ` set exs" "snd ` set ?r \<subseteq> snd ` set exs"
    using sweep_endpoints [OF wf0(2) wfR' sR] by (simp_all add: set_eq)
  have interior: "\<forall>(a, b)\<in>set ?r. \<forall>p. a < p \<and> p < b \<longrightarrow> (\<exists>(s, e)\<in>set exs. s < p \<and> p < e)"
    using sweep_interior [OF wf0(2) wfR' sR] by (simp add: set_eq)
  show ?thesis
    using res cov chain nn inside ends interior by (intro exI [of _ ?r]) simp
qed


section \<open>Correctness of \<^verbatim>\<open>merge_exons\<close>\<close>




text \<open>
  C4 as stated fails for coordinates below 0: the strictly overlapping intervals
  \<open>(-5,-3)\<close> and \<open>(-4,-1)\<close> are not merged into one run; the call raises.
\<close>

theorem merge_exons_overlap_counterexample:
  "merge_exons_result [(-5, -3), (-4, -1)] = Some (Inl element_with_a_sequence)"
  by (simp add: merge_exons_result_def merge_exons_def np_array_def int64_def
      merge_while.simps merge_body_def)

text \<open>
  C4, amended. For two intervals whose coordinates numpy holds as \<^verbatim>\<open>int64\<close> and of which
  the smaller one starts at 0 or above, \<^verbatim>\<open>merge_exons\<close> returns one interval exactly when
  the second starts strictly below the stop of the first, and both intervals unchanged
  otherwise, in whichever order they are given. So touching intervals stay separate:
  \<open>[(0,5),(5,10)]\<close> is returned as it is, and \<open>[(0,5),(3,10)]\<close> becomes \<open>[(0,10)]\<close>.
\<close>

theorem merge_exons_two_intervals:
  assumes "0 \<le> s1" and "s1 < s2 \<or> (s1 = s2 \<and> e1 \<le> e2)"
    and "s2 < 2 ^ 63" and "int64 e1" and "int64 e2"
  shows "merge_exons_result [(s1, e1), (s2, e2)] =
           (if s2 < e1 then Some (Inr ([s1], [max e1 e2])) else Some (Inr ([s1, s2], [e1, e2])))
       \<and> merge_exons_result [(s2, e2), (s1, e1)] = merge_exons_result [(s1, e1), (s2, e2)]"
proof -
  have le: "(s1, e1) \<le> (s2, e2)"
    using assms(2) by (auto simp: less_eq_prod_def)
  have srt1: "sort [(s1, e1), (s2, e2)] = (s1, e1) # [(s2, e2)]"
    using le by simp
  have srt2: "sort [(s2, e2), (s1, e1)] = (s1, e1) # [(s2, e2)]"
    using le by auto
  have s12: "int64 s1" "int64 s2"
    using assms(1-3) by (auto simp: int64_def)
  have c1: "\<forall>(s, e)\<in>set [(s1, e1), (s2, e2)]. int64 s \<and> int64 e"
    using s12 assms(4,5) by simp
  have c2: "\<forall>(s, e)\<in>set [(s2, e2), (s1, e1)]. int64 s \<and> int64 e"
    using s12 assms(4,5) by simp
  have res1: "merge_exons_result [(s1, e1), (s2, e2)] =
           (if s2 < e1 then Some (Inr ([s1], [max e1 e2])) else Some (Inr ([s1, s2], [e1, e2])))"
    using merge_exons_sweep [OF srt1 assms(1) c1] assms(1,2) by (auto simp: max_def)
  have res2: "merge_exons_result [(s2, e2), (s1, e1)] =
           (if s2 < e1 then Some (Inr ([s1], [max e1 e2])) else Some (Inr ([s1, s2], [e1, e2])))"
    using merge_exons_sweep [OF srt2 assms(1) c2] assms(1,2) by (auto simp: max_def)
  from res1 res2 show ?thesis by simp
qed

theorem merge_exons_two_intervals_witness:
  "merge_exons_result [(0, 5), (5, 10)] = Some (Inr ([0, 5], [5, 10]))
   \<and> merge_exons_result [(0, 5), (3, 10)] = Some (Inr ([0], [10]))
   \<and> merge_exons_result [(3, 10), (0, 5)] = Some (Inr ([0], [10]))"
  using merge_exons_two_intervals [of 0 5 5 10] merge_exons_two_intervals [of 0 3 5 10]
  by (simp add: int64_def)

text \<open>
  C5 as stated fails for coordinates below 0: the intervals \<open>(-2,-1)\<close> and \<open>(3,4)\<close> are
  sorted and do not overlap, but merging them raises.
\<close>

theorem merge_exons_idempotent_counterexample:
  "merge_exons_result [(-2, -1), (3, 4)] = Some (Inl element_with_a_sequence)"
  by (simp add: merge_exons_result_def merge_exons_def np_array_def int64_def
      merge_while.simps merge_body_def)

text \<open>
  C5, amended. A list of intervals with \<open>0 \<le> start \<le> stop < 2^63\<close> that is sorted
  ascending and in which no interval stops above the start of a later one is returned
  unchanged by \<^verbatim>\<open>merge_exons\<close>. What \<^verbatim>\<open>merge_exons\<close> returns for intervals with
  \<open>0 \<le> start \<le> stop < 2^63\<close> is such a list, so merging it again returns it once more.
\<close>

theorem merge_exons_idempotent:
  "(sorted (map fst exs) \<and> sorted_wrt (\<lambda>prev next. snd prev \<le> fst next) exs \<and>
    (\<forall>(s, e)\<in>set exs. 0 \<le> s \<and> s \<le> e \<and> e < 2 ^ 63) \<longrightarrow>
      merge_exons_result exs = Some (Inr (map fst exs, map snd exs)))
   \<and> ((\<forall>(s, e)\<in>set exs. 0 \<le> s \<and> s \<le> e \<and> e < 2 ^ 63) \<and>
      merge_exons_result exs = Some (Inr (out_starts, out_stops)) \<longrightarrow>
      merge_exons_result (zip out_starts out_stops) = Some (Inr (out_starts, out_stops)))"
proof -
  have merged: "merge_exons_result r = Some (Inr (map fst r, map snd r))"
    if chain: "sorted_wrt (\<lambda>prev next. snd prev \<le> fst next) r"
      and wf: "\<forall>(s, e)\<in>set r. 0 \<le> s \<and> s \<le> e \<and> e < 2 ^ 63" for r
  proof (cases r)
    case Nil
    then show ?thesis by (simp add: merge_exons_empty)
  next
    case (Cons x R)
    obtain s0 e0 where x: "x = (s0, e0)" by (cases x)
    have wf': "\<forall>(a, b)\<in>set r. a \<le> b" using wf by auto
    have cells: "\<forall>(s, e)\<in>set r. int64 s \<and> int64 e"
      using wf by (auto intro!: int64_nonneg)
    have "sorted r" using merged_sorted [OF chain wf'] by simp
    then have "sort r = r" by (rule sorted_sort_id)
    then have srt: "sort r = (s0, e0) # R"
      by (simp add: Cons x)
    have wf0: "0 \<le> s0" "s0 \<le> e0" and wfR: "\<forall>(s, e)\<in>set R. s \<le> e"
      using wf by (auto simp: Cons x)
    have mx: "max e0 0 = e0" using wf0 by simp
    have "sweep s0 e0 e0 R = (s0, e0) # R"
      using chain wfR by (intro sweep_merged) (simp_all add: Cons x)
    then show ?thesis
      using merge_exons_sweep [OF srt wf0(1) cells] by (simp add: mx Cons x)
  qed
  have again: "merge_exons_result (zip out_starts out_stops) = Some (Inr (out_starts, out_stops))"
    if wf: "\<forall>(s, e)\<in>set exs. 0 \<le> s \<and> s \<le> e \<and> e < 2 ^ 63"
      and res: "merge_exons_result exs = Some (Inr (out_starts, out_stops))"
  proof -
    from merge_exons_output [OF wf] obtain r where
      r: "merge_exons_result exs = Some (Inr (map fst r, map snd r))"
      and chain: "sorted_wrt (\<lambda>a b. snd a \<le> fst b) r"
      and wfr: "\<forall>(a, b)\<in>set r. 0 \<le> a \<and> a \<le> b"
      and ends: "snd ` set r \<subseteq> snd ` set exs"
      by (elim exE conjE)
    have bound: "\<forall>(a, b)\<in>set r. b < 2 ^ 63"
    proof (clarify)
      fix a b assume "(a, b) \<in> set r"
      then have "b \<in> snd ` set exs" using ends by force
      then show "b < 2 ^ 63" using wf by auto
    qed
    have wfr': "\<forall>(a, b)\<in>set r. 0 \<le> a \<and> a \<le> b \<and> b < 2 ^ 63"
      using wfr bound by auto
    from r res have out: "out_starts = map fst r" "out_stops = map snd r" by simp_all
    have z: "zip out_starts out_stops = r"
      by (simp add: out zip_map_fst_snd)
    show ?thesis
      using merged [OF chain wfr'] by (simp add: z) (simp add: out)
  qed
  show ?thesis
  proof (intro conjI impI)
    assume "sorted (map fst exs) \<and> sorted_wrt (\<lambda>prev next. snd prev \<le> fst next) exs \<and>
            (\<forall>(s, e)\<in>set exs. 0 \<le> s \<and> s \<le> e \<and> e < 2 ^ 63)"
    then have "sorted_wrt (\<lambda>prev next. snd prev \<le> fst next) exs"
      and "\<forall>(s, e)\<in>set exs. 0 \<le> s \<and> s \<le> e \<and> e < 2 ^ 63"
      by simp_all
    then show "merge_exons_result exs = Some (Inr (map fst exs, map snd exs))"
      by (rule merged)
  next
    assume "(\<forall>(s, e)\<in>set exs. 0 \<le> s \<and> s \<le> e \<and> e < 2 ^ 63) \<and>
            merge_exons_result exs = Some (Inr (out_starts, out_stops))"
    then have "\<forall>(s, e)\<in>set exs. 0 \<le> s \<and> s \<le> e \<and> e < 2 ^ 63"
      and "merge_exons_result exs = Some (Inr (out_starts, out_stops))"
      by simp_all
    then show "merge_exons_result (zip out_starts out_stops) = Some (Inr (out_starts, out_stops))"
      by (rule again)
  qed
qed

theorem merge_exons_idempotent_witness:
  "sorted (map fst ([(0, 5), (5, 10), (12, 20)] :: interval list))
   \<and> sorted_wrt (\<lambda>prev next. snd prev \<le> fst next) ([(0, 5), (5, 10), (12, 20)] :: interval list)
   \<and> list_all (\<lambda>(s, e). 0 \<le> s \<and> s \<le> e \<and> e < 2 ^ 63)
        ([(0, 5), (5, 10), (12, 20)] :: interval list)
   \<and> merge_exons_result [(0, 5), (5, 10), (12, 20)] = Some (Inr ([0, 5, 12], [5, 10, 20]))
   \<and> merge_exons_result [(3, 10), (0, 5), (25, 27), (20, 30)] = Some (Inr ([0, 20], [10, 30]))
   \<and> merge_exons_result (zip [0, 20] [10, 30]) = Some (Inr ([0, 20], [10, 30]))"
proof -
  have run: "merge_exons_result [(3, 10), (0, 5), (25, 27), (20, 30)] =
               Some (Inr ([0, 20], [10, 30]))"
    by (simp add: merge_exons_result_def merge_exons_def np_array_def int64_def
        merge_while.simps merge_body_def mask_select_def)
  have wf: "\<forall>(s, e)\<in>set ([(3, 10), (0, 5), (25, 27), (20, 30)] :: interval list).
              0 \<le> s \<and> s \<le> e \<and> e < 2 ^ 63"
    by simp
  have a: "merge_exons_result (zip [0, 20] [10, 30]) = Some (Inr ([0, 20], [10, 30]))"
  proof -
    have "(\<forall>(s, e)\<in>set ([(3, 10), (0, 5), (25, 27), (20, 30)] :: interval list).
             0 \<le> s \<and> s \<le> e \<and> e < 2 ^ 63) \<and>
          merge_exons_result [(3, 10), (0, 5), (25, 27), (20, 30)] =
            Some (Inr ([0, 20], [10, 30])) \<longrightarrow>
          merge_exons_result (zip [0, 20] [10, 30]) = Some (Inr ([0, 20], [10, 30]))"
      using merge_exons_idempotent
        [of "[(3, 10), (0, 5), (25, 27), (20, 30)]" "[0, 20]" "[10, 30]"]
      by (rule conjunct2)
    from mp [OF this conjI [OF wf run]] show ?thesis .
  qed
  have b: "merge_exons_result [(0, 5), (5, 10), (12, 20)] = Some (Inr ([0, 5, 12], [5, 10, 20]))"
    using merge_exons_idempotent [of "[(0, 5), (5, 10), (12, 20)]"] by simp
  from a b run show ?thesis by simp
qed

end
